theory Spec2Isabelle
  imports Main
begin

unbundle bit_operations_syntax

section \<open>The generator-based scheduler of device/flash/lib/scheduler.py\<close>

subsection \<open>Data\<close>

text \<open>
  A task object is addressed by its identity; the lists of the scheduler hold references.
  The model keeps the objects in a store indexed by a handle and the lists hold handles.
\<close>

type_synonym tid = nat

text \<open>
  The exceptions that matter to the loop: \<open>ExitScheduler\<close> (re-raised), \<open>ValueError\<close>
  (what \<open>list.remove\<close> raises on a missing element) and any other exception, tagged by a number.
\<close>

datatype exn = ExitScheduler | ValueError | OtherError nat

text \<open>The two task classes, \<open>Task\<close> and \<open>RestartingTask\<close>.\<close>

datatype task_cls = TaskCls | RestartingTaskCls

text \<open>
  What one call of \<open>iterator.__next__()\<close> ends with: a yielded value (a falsy value such
  as \<open>None\<close> is the mask 0), the end of the generator, or a raised exception.
\<close>

datatype outcome = Yield int | StopIteration | Raise exn

text \<open>
  The body of a generator is user code. Between two suspension points it may call the
  scheduler's interface; a step is modelled as the list of these calls, in order, followed by
  its outcome. A generator function maps the number of steps already taken by an instance to
  the next step of that instance.
\<close>

datatype action =
    Stop tid
  | Restart tid
  | SetFlag int
  | NewFlag
  | Clear
  | Run "nat \<Rightarrow> action list \<times> outcome" task_cls

type_synonym generator = "nat \<Rightarrow> action list \<times> outcome"

text \<open>A generator instance: how many steps it has taken, or finished for good.\<close>

datatype iterator = Live nat | Finished

record task =
  generator :: generator
  iterator :: iterator
  mask_t :: int
  cls :: task_cls

text \<open>
  The scheduler object. \<open>tasks\<close> is the object store and \<open>next_id\<close> the next unused
  handle. \<open>printed\<close> records the calls of \<open>sys.print_exception\<close>, \<open>sleeps\<close> counts the calls
  of \<open>sleep\<close>, and \<open>resumed\<close> records the calls of \<open>__next__\<close>.
\<close>

record sched =
  running :: "tid list"
  waiting :: "tid list"
  flags :: int
  flag_counter :: nat
  tasks :: "tid \<rightharpoonup> task"
  next_id :: nat
  printed :: "(tid \<times> exn) list"
  sleeps :: nat
  resumed :: "tid list"

subsection \<open>Scheduler and Task methods\<close>

text \<open>\<open>Scheduler.__init__\<close>\<close>

definition Scheduler_init :: sched where
  "Scheduler_init =
     \<lparr>running = [], waiting = [], flags = 0, flag_counter = 0, tasks = Map.empty,
      next_id = 0, printed = [], sleeps = 0, resumed = []\<rparr>"

text \<open>\<open>list.remove(x)\<close>: drops the first element equal to \<open>x\<close>; \<open>None\<close> is \<open>ValueError\<close>.\<close>

definition list_remove :: "'a \<Rightarrow> 'a list \<Rightarrow> 'a list option" where
  "list_remove x xs = (if x \<in> set xs then Some (remove1 x xs) else None)"

text \<open>\<open>Scheduler.clear\<close>\<close>

definition clear :: "sched \<Rightarrow> sched" where
  "clear s = s\<lparr>running := [], waiting := []\<rparr>"

text \<open>\<open>Scheduler.new_flag\<close>: \<open>1 << flag_counter\<close> on Python's unbounded integers.\<close>

definition new_flag :: "sched \<Rightarrow> int \<times> sched" where
  "new_flag s = (push_bit (flag_counter s) 1, s\<lparr>flag_counter := flag_counter s + 1\<rparr>)"

text \<open>\<open>Scheduler.wakeup\<close> and \<open>Scheduler.sleep\<close>\<close>

definition wakeup :: "sched \<Rightarrow> sched" where
  "wakeup s = s"

definition sleep :: "sched \<Rightarrow> sched" where
  "sleep s = s\<lparr>sleeps := sleeps s + 1\<rparr>"

text \<open>\<open>Scheduler.run\<close>: builds the task object (\<open>Task.__init__\<close>) and appends it.\<close>

definition run :: "generator \<Rightarrow> task_cls \<Rightarrow> sched \<Rightarrow> tid \<times> sched" where
  "run g c s =
     (let t = next_id s;
          s1 = s\<lparr>tasks := (tasks s)(t \<mapsto> \<lparr>generator = g, iterator = Live 0, mask_t = 0, cls = c\<rparr>),
                 next_id := Suc t\<rparr>;
          s2 = s1\<lparr>running := running s1 @ [t]\<rparr>
      in (t, wakeup s2))"

text \<open>\<open>Scheduler.remove\<close>: both removals swallow \<open>ValueError\<close>.\<close>

definition remove :: "tid \<Rightarrow> sched \<Rightarrow> sched" where
  "remove t s =
     (let s1 = (case list_remove t (running s) of Some r \<Rightarrow> s\<lparr>running := r\<rparr> | None \<Rightarrow> s)
      in (case list_remove t (waiting s1) of Some w \<Rightarrow> s1\<lparr>waiting := w\<rparr> | None \<Rightarrow> s1))"

text \<open>\<open>Scheduler.set_flag\<close>\<close>

definition set_flag :: "int \<Rightarrow> sched \<Rightarrow> sched" where
  "set_flag f s = wakeup (s\<lparr>flags := flags s OR f\<rparr>)"

text \<open>\<open>Task.stop\<close>\<close>

definition stop :: "tid \<Rightarrow> sched \<Rightarrow> sched" where
  "stop t s = remove t s"

text \<open>
  \<open>Task.restart\<close>. A handle that names no object cannot exist in Python; the model leaves
  the state alone there.
\<close>

definition restart :: "tid \<Rightarrow> sched \<Rightarrow> sched" where
  "restart t s =
     (case tasks s t of
        None \<Rightarrow> s
      | Some tk \<Rightarrow>
          (let s1 = remove t s;
               s2 = s1\<lparr>tasks := (tasks s1)(t \<mapsto> tk\<lparr>iterator := Live 0\<rparr>)\<rparr>
           in s2\<lparr>running := running s2 @ [t]\<rparr>))"

text \<open>\<open>Task.handle_exception\<close>\<close>

definition handle_exception :: "tid \<Rightarrow> exn \<Rightarrow> sched \<Rightarrow> sched" where
  "handle_exception t e s = s\<lparr>printed := printed s @ [(t, e)]\<rparr>"

text \<open>\<open>Task._abort_on_error\<close> and its override in \<open>RestartingTask\<close>\<close>

definition abort_on_error :: "tid \<Rightarrow> exn \<Rightarrow> sched \<Rightarrow> sched" where
  "abort_on_error t e s =
     (case tasks s t of
        None \<Rightarrow> s
      | Some tk \<Rightarrow>
          (case cls tk of
             TaskCls \<Rightarrow> handle_exception t e s
           | RestartingTaskCls \<Rightarrow> restart t (handle_exception t e s)))"

subsection \<open>Running one step of a generator\<close>

fun exec_action :: "action \<Rightarrow> sched \<Rightarrow> sched" where
  "exec_action (Stop u) s = stop u s"
| "exec_action (Restart u) s = restart u s"
| "exec_action (SetFlag f) s = set_flag f s"
| "exec_action NewFlag s = snd (new_flag s)"
| "exec_action Clear s = clear s"
| "exec_action (Run g c) s = snd (run g c s)"

fun exec_actions :: "action list \<Rightarrow> sched \<Rightarrow> sched" where
  "exec_actions [] s = s"
| "exec_actions (a # as) s = exec_actions as (exec_action a s)"

text \<open>
  \<open>task.iterator.__next__()\<close>. The instance that is advanced is the one the task referred to
  when the call began: a \<open>restart\<close> of the task from inside the step installs a fresh instance
  that the running step does not touch any more. So the instance is advanced first and the
  calls of the step run afterwards. A finished generator raises \<open>StopIteration\<close> again.
\<close>

definition gen_next :: "tid \<Rightarrow> sched \<Rightarrow> outcome \<times> sched" where
  "gen_next t s =
     (case tasks s t of
        None \<Rightarrow> (StopIteration, s\<lparr>resumed := resumed s @ [t]\<rparr>)
      | Some tk \<Rightarrow>
          (case iterator tk of
             Finished \<Rightarrow> (StopIteration, s\<lparr>resumed := resumed s @ [t]\<rparr>)
           | Live k \<Rightarrow>
               (case generator tk k of
                  (acts, out) \<Rightarrow>
                    (let it = (case out of Yield m \<Rightarrow> Live (Suc k) | _ \<Rightarrow> Finished);
                         s1 = s\<lparr>tasks := (tasks s)(t \<mapsto> tk\<lparr>iterator := it\<rparr>),
                                resumed := resumed s @ [t]\<rparr>
                     in (out, exec_actions acts s1)))))"

subsection \<open>The loop\<close>

text \<open>
  The body of \<open>for task in list(self.waiting)\<close>. The result carries the exception that leaves
  the loop, if any, and the state at that moment.
\<close>

definition wake_task :: "tid \<Rightarrow> sched \<Rightarrow> exn option \<times> sched" where
  "wake_task t s =
     (case tasks s t of
        None \<Rightarrow> (None, s)
      | Some tk \<Rightarrow>
          if flags s AND mask_t tk \<noteq> 0 then
            (let s1 = s\<lparr>running := running s @ [t]\<rparr>
             in (case list_remove t (waiting s1) of
                   None \<Rightarrow> (Some ValueError, s1)
                 | Some w \<Rightarrow> (None, s1\<lparr>waiting := w\<rparr>)))
          else (None, s))"

fun for_waiting :: "tid list \<Rightarrow> sched \<Rightarrow> exn option \<times> sched" where
  "for_waiting [] s = (None, s)"
| "for_waiting (t # ts) s =
     (case wake_task t s of
        (Some e, s1) \<Rightarrow> (Some e, s1)
      | (None, s1) \<Rightarrow> for_waiting ts s1)"

text \<open>The \<open>if self.flags:\<close> block.\<close>

definition flag_merge :: "sched \<Rightarrow> exn option \<times> sched" where
  "flag_merge s =
     (if flags s \<noteq> 0 then
        (case for_waiting (waiting s) s of
           (Some e, s1) \<Rightarrow> (Some e, s1)
         | (None, s1) \<Rightarrow> (None, s1\<lparr>flags := 0\<rparr>))
      else (None, s))"

text \<open>
  The body of \<open>for task in list(self.running)\<close>: the \<open>try\<close> statement with its three handlers
  and its \<open>else\<close> branch, whose \<open>self.running.remove(task)\<close> is outside every handler.
\<close>

definition resume_task :: "tid \<Rightarrow> sched \<Rightarrow> exn option \<times> sched" where
  "resume_task t s =
     (case gen_next t s of
        (StopIteration, s1) \<Rightarrow> (None, remove t s1)
      | (Raise ExitScheduler, s1) \<Rightarrow> (Some ExitScheduler, s1)
      | (Raise e, s1) \<Rightarrow> (None, abort_on_error t e (remove t s1))
      | (Yield m, s1) \<Rightarrow>
          if m \<noteq> 0 then
            (case list_remove t (running s1) of
               None \<Rightarrow> (Some ValueError, s1)
             | Some r \<Rightarrow>
                 (let s2 = s1\<lparr>running := r\<rparr>;
                      s3 = s2\<lparr>waiting := waiting s2 @ [t]\<rparr>
                  in (None, s3\<lparr>tasks := (tasks s3)(t := map_option (\<lambda>tk. tk\<lparr>mask_t := m\<rparr>) (tasks s3 t))\<rparr>)))
          else (None, s1))"

fun for_running :: "tid list \<Rightarrow> sched \<Rightarrow> exn option \<times> sched" where
  "for_running [] s = (None, s)"
| "for_running (t # ts) s =
     (case resume_task t s of
        (Some e, s1) \<Rightarrow> (Some e, s1)
      | (None, s1) \<Rightarrow> for_running ts s1)"

text \<open>The \<open>if self.running: ... else: self.sleep()\<close> block.\<close>

definition resume_or_sleep :: "sched \<Rightarrow> exn option \<times> sched" where
  "resume_or_sleep s =
     (if running s \<noteq> [] then for_running (running s) s else (None, sleep s))"

text \<open>One iteration of \<open>while True\<close>.\<close>

definition loop_pass :: "sched \<Rightarrow> exn option \<times> sched" where
  "loop_pass s =
     (case flag_merge s of
        (Some e, s1) \<Rightarrow> (Some e, s1)
      | (None, s1) \<Rightarrow> resume_or_sleep s1)"

text \<open>
  \<open>Scheduler.loop\<close>: it never returns normally. The value is the exception that leaves it,
  with the state at that moment; \<open>None\<close> is a loop that runs forever.
\<close>

partial_function (option) loop :: "sched \<Rightarrow> (exn \<times> sched) option" where
  "loop s =
     (case loop_pass s of
        (Some e, s1) \<Rightarrow> Some (e, s1)
      | (None, s1) \<Rightarrow> loop s1)"

text \<open>The first \<open>n\<close> iterations of \<open>while True\<close>.\<close>

fun loop_n :: "nat \<Rightarrow> sched \<Rightarrow> exn option \<times> sched" where
  "loop_n 0 s = (None, s)"
| "loop_n (Suc n) s =
     (case loop_pass s of
        (Some e, s1) \<Rightarrow> (Some e, s1)
      | (None, s1) \<Rightarrow> loop_n n s1)"

subsection \<open>Auxiliary notions for the statements\<close>

text \<open>A task is woken by the pending flags when they intersect its wait mask.\<close>

definition wakes :: "sched \<Rightarrow> tid \<Rightarrow> bool" where
  "wakes s t = (case tasks s t of None \<Rightarrow> False | Some tk \<Rightarrow> flags s AND mask_t tk \<noteq> 0)"

text \<open>\<open>n\<close> successive calls of \<open>new_flag\<close>, with the values they return.\<close>

fun new_flags :: "nat \<Rightarrow> sched \<Rightarrow> int list \<times> sched" where
  "new_flags 0 s = ([], s)"
| "new_flags (Suc n) s =
     (case new_flag s of (f, s1) \<Rightarrow> (case new_flags n s1 of (fs, s2) \<Rightarrow> (f # fs, s2)))"

text \<open>
  The membership invariant of the two lists: no task is listed twice, and every listed or
  stored handle has been allocated.
\<close>

definition wf :: "sched \<Rightarrow> bool" where
  "wf s = (distinct (running s @ waiting s)
           \<and> list_all (\<lambda>t. t < next_id s) (running s @ waiting s)
           \<and> dom (tasks s) \<subseteq> {..< next_id s})"

subsection \<open>Notions for the restart policy\<close>








subsection \<open>Example schedulers\<close>

text \<open>A task object with a given wait mask, as \<open>Task.__init__\<close> followed by a yield leaves it.\<close>

definition mk_task :: "generator \<Rightarrow> int \<Rightarrow> task_cls \<Rightarrow> task" where
  "mk_task g m c = \<lparr>generator = g, iterator = Live 0, mask_t = m, cls = c\<rparr>"

text \<open>A generator whose body returns at once.\<close>

definition gen_done :: generator where
  "gen_done = (\<lambda>k. ([], StopIteration))"

text \<open>Three tasks waiting on the masks 1, 2 and 3, one runnable task, flag 1 pending.\<close>

definition ex_waiting3 :: sched where
  "ex_waiting3 =
     \<lparr>running = [3], waiting = [0, 1, 2], flags = 1, flag_counter = 2,
      tasks = [0 \<mapsto> mk_task gen_done 1 TaskCls, 1 \<mapsto> mk_task gen_done 2 TaskCls,
               2 \<mapsto> mk_task gen_done 3 TaskCls, 3 \<mapsto> mk_task gen_done 0 TaskCls],
      next_id = 4, printed = [], sleeps = 0, resumed = []\<rparr>"

text \<open>A generator that yields the mask 1 at every step, calling nothing.\<close>

definition gen_wait1 :: generator where
  "gen_wait1 = (\<lambda>k. ([], Yield 1))"

text \<open>A fresh scheduler with one such task submitted.\<close>

definition ex_yield1 :: sched where
  "ex_yield1 = snd (run gen_wait1 TaskCls Scheduler_init)"

text \<open>A generator whose step calls \<open>stop\<close> on task 0 and then yields the mask 1.\<close>

definition gen_self_stop :: generator where
  "gen_self_stop = (\<lambda>k. ([Stop 0], Yield 1))"

text \<open>It is submitted first, so task 0 is the task itself: it stops itself.\<close>

definition ex_self_stop :: sched where
  "ex_self_stop = snd (run gen_self_stop TaskCls Scheduler_init)"

text \<open>A generator whose step stops task 1 and yields 0; task 1 then yields the mask 1.\<close>

definition gen_stop_other :: generator where
  "gen_stop_other = (\<lambda>k. ([Stop 1], Yield 0))"

definition ex_stop_other :: sched where
  "ex_stop_other = snd (run gen_wait1 TaskCls (snd (run gen_stop_other TaskCls Scheduler_init)))"

text \<open>Generators that raise an error, raise \<open>ExitScheduler\<close>, or yield 0, at every step.\<close>

definition gen_fail :: generator where
  "gen_fail = (\<lambda>k. ([], Raise (OtherError 7)))"

definition gen_exit :: generator where
  "gen_exit = (\<lambda>k. ([], Raise ExitScheduler))"

definition gen_yield0 :: generator where
  "gen_yield0 = (\<lambda>k. ([], Yield 0))"

text \<open>Three tasks submitted in this order: one that fails, one that exits, one that waits.\<close>

definition ex_exit :: sched where
  "ex_exit = snd (run gen_wait1 TaskCls (snd (run gen_exit TaskCls (snd (run gen_fail TaskCls Scheduler_init)))))"

text \<open>A restarting task that always fails, followed by a task that always yields 0.\<close>

definition ex_restart :: sched where
  "ex_restart = snd (run gen_yield0 TaskCls (snd (run gen_fail RestartingTaskCls Scheduler_init)))"

section \<open>Properties\<close>

subsection \<open>Flags\<close>

lemma new_flags_values:
  "fst (new_flags n s) = map (\<lambda>k. push_bit k 1) [flag_counter s ..< flag_counter s + n]"
proof (induction n arbitrary: s)
  case 0
  show ?case by simp
next
  case (Suc n)
  have "fst (new_flags (Suc n) s) = push_bit (flag_counter s) 1 # fst (new_flags n (snd (new_flag s)))"
    by (simp add: new_flag_def split: prod.splits)
  also have "\<dots> = push_bit (flag_counter s) 1 # map (\<lambda>k. push_bit k 1) [Suc (flag_counter s) ..< Suc (flag_counter s) + n]"
    by (simp add: Suc.IH new_flag_def)
  finally show ?case by (simp add: upt_rec [of "flag_counter s"])
qed

lemma new_flags_counter: "flag_counter (snd (new_flags n s)) = flag_counter s + n"
proof (induction n arbitrary: s)
  case 0
  show ?case by simp
next
  case (Suc n)
  have "snd (new_flags (Suc n) s) = snd (new_flags n (snd (new_flag s)))"
    by (simp add: new_flag_def split: prod.splits)
  then show ?case by (simp add: Suc.IH new_flag_def)
qed

lemma single_bits_distinct: "distinct (map (\<lambda>k. push_bit k (1::int)) [i ..< j])"
  by (simp add: distinct_map inj_on_def push_bit_of_1)

lemma wakes_frame:
  "tasks s' = tasks s \<Longrightarrow> flags s' = flags s \<Longrightarrow> wakes s' = wakes s"
  by (simp add: wakes_def fun_eq_iff split: option.splits)

lemma for_waiting_gen:
  "waiting s = pre @ xs \<Longrightarrow> \<forall>t \<in> set pre. \<not> wakes s t \<Longrightarrow>
   for_waiting xs s =
     (None, s\<lparr>running := running s @ filter (wakes s) xs,
             waiting := pre @ filter (\<lambda>t. \<not> wakes s t) xs\<rparr>)"
proof (induction xs arbitrary: s pre)
  case Nil
  then show ?case by simp
next
  case (Cons t ts)
  show ?case
  proof (cases "wakes s t")
    case True
    then obtain tk where tk: "tasks s t = Some tk" "flags s AND mask_t tk \<noteq> 0"
      by (auto simp: wakes_def split: option.splits)
    from True Cons.prems have notin: "t \<notin> set pre" by auto
    let ?s1 = "s\<lparr>running := running s @ [t], waiting := pre @ ts\<rparr>"
    have rm: "remove1 t (pre @ t # ts) = pre @ ts"
      using notin by (simp add: remove1_append)
    have step: "wake_task t s = (None, ?s1)"
      using tk Cons.prems(1) rm by (simp add: wake_task_def list_remove_def)
    have w: "wakes ?s1 = wakes s" by (rule wakes_frame) simp_all
    have "for_waiting ts ?s1 =
        (None, ?s1\<lparr>running := running ?s1 @ filter (wakes ?s1) ts,
                  waiting := pre @ filter (\<lambda>t. \<not> wakes ?s1 t) ts\<rparr>)"
      by (rule Cons.IH) (use Cons.prems w in auto)
    then show ?thesis using step True w by simp
  next
    case False
    have step: "wake_task t s = (None, s)"
      using False by (auto simp: wake_task_def wakes_def split: option.splits)
    have "for_waiting ts s =
        (None, s\<lparr>running := running s @ filter (wakes s) ts,
                waiting := (pre @ [t]) @ filter (\<lambda>t. \<not> wakes s t) ts\<rparr>)"
      by (rule Cons.IH) (use Cons.prems False in auto)
    then show ?thesis using step False by simp
  qed
qed

lemma flag_merge_eq:
  "flag_merge s =
     (None, if flags s \<noteq> 0
            then s\<lparr>running := running s @ filter (wakes s) (waiting s),
                   waiting := filter (\<lambda>t. \<not> wakes s t) (waiting s), flags := 0\<rparr>
            else s)"
  using for_waiting_gen [of s "[]" "waiting s"] by (simp add: flag_merge_def)

text \<open>
  C1. From a fresh scheduler, \<open>N\<close> calls of \<open>new_flag\<close> return the single-bit values
  \<open>1 << 0, \<dots>, 1 << (N - 1)\<close>, which are pairwise distinct. With non-zero pending flags the
  flag block of the loop appends to \<open>running\<close>, in the order of \<open>waiting\<close>, exactly the waiting
  tasks whose mask intersects the flags, leaves the others in \<open>waiting\<close>, raises nothing and
  clears the flags; with pending flags 0 it does nothing at all.
\<close>

theorem C1_flag_round_trip:
  "fst (new_flags N Scheduler_init) = map (\<lambda>k. push_bit k 1) [0 ..< N]
   \<and> distinct (fst (new_flags N Scheduler_init))
   \<and> (flags s \<noteq> 0 \<longrightarrow>
        flag_merge s =
          (None, s\<lparr>running := running s @ filter (wakes s) (waiting s),
                  waiting := filter (\<lambda>t. \<not> wakes s t) (waiting s), flags := 0\<rparr>))
   \<and> (flags s = 0 \<longrightarrow> flag_merge s = (None, s))"
  using new_flags_values [of N Scheduler_init] single_bits_distinct [of 0 N]
  by (simp add: flag_merge_eq Scheduler_init_def)

theorem C1_flag_round_trip_witness:
  "fst (new_flags 3 Scheduler_init) = [1, 2, 4]
   \<and> flags ex_waiting3 \<noteq> 0
   \<and> flag_merge ex_waiting3 = (None, ex_waiting3\<lparr>running := [3, 0, 2], waiting := [1], flags := 0\<rparr>)
   \<and> flags (ex_waiting3\<lparr>flags := 0\<rparr>) = 0
   \<and> flag_merge (ex_waiting3\<lparr>flags := 0\<rparr>) = (None, ex_waiting3\<lparr>flags := 0\<rparr>)"
proof -
  have w: "wakes ex_waiting3 0" "\<not> wakes ex_waiting3 (Suc 0)" "wakes ex_waiting3 2"
    by (simp_all add: wakes_def ex_waiting3_def mk_task_def)
  have l: "running ex_waiting3 = [3]" "waiting ex_waiting3 = [0, 1, 2]" "flags ex_waiting3 = 1"
    by (simp_all add: ex_waiting3_def)
  have n: "[0 ..< 3] = [0, Suc 0, 2]" by (simp add: upt_rec)
  show ?thesis
    using C1_flag_round_trip [of 3 ex_waiting3] C1_flag_round_trip [of 0 "ex_waiting3\<lparr>flags := 0\<rparr>"]
    by (simp add: w l n)
qed

subsection \<open>Effects that a step cannot have\<close>

lemmas sched_ops = stop_def remove_def restart_def set_flag_def wakeup_def new_flag_def clear_def
  run_def list_remove_def handle_exception_def abort_on_error_def sleep_def

lemma exec_action_frame:
  "printed (exec_action a s) = printed s \<and> sleeps (exec_action a s) = sleeps s
   \<and> resumed (exec_action a s) = resumed s"
  by (cases a) (simp_all add: sched_ops Let_def split: option.splits)

lemma exec_actions_frame:
  "printed (exec_actions as s) = printed s \<and> sleeps (exec_actions as s) = sleeps s
   \<and> resumed (exec_actions as s) = resumed s"
  by (induction as arbitrary: s) (simp_all add: exec_action_frame)



lemma gen_next_frame:
  "printed (snd (gen_next t s)) = printed s \<and> sleeps (snd (gen_next t s)) = sleeps s
   \<and> resumed (snd (gen_next t s)) = resumed s @ [t]"
proof (cases "tasks s t")
  case None
  then show ?thesis by (simp add: gen_next_def)
next
  case (Some tk)
  show ?thesis
  proof (cases "iterator tk")
    case Finished
    with Some show ?thesis by (simp add: gen_next_def)
  next
    case (Live k)
    obtain acts out where g: "generator tk k = (acts, out)" by (cases "generator tk k")
    show ?thesis using Some Live g
      by (simp add: gen_next_def exec_actions_frame)
  qed
qed


lemma remove_frame:
  "printed (remove t s) = printed s \<and> sleeps (remove t s) = sleeps s
   \<and> resumed (remove t s) = resumed s \<and> tasks (remove t s) = tasks s
   \<and> flags (remove t s) = flags s \<and> next_id (remove t s) = next_id s"
  by (simp add: remove_def list_remove_def)

lemma remove_lists:
  "running (remove t s) = remove1 t (running s) \<and> waiting (remove t s) = remove1 t (waiting s)"
  by (simp add: remove_def list_remove_def remove1_idem)

lemma restart_Some:
  "tasks s t = Some tk \<Longrightarrow>
   restart t s = (remove t s)\<lparr>tasks := (tasks s)(t \<mapsto> tk\<lparr>iterator := Live 0\<rparr>),
                               running := remove1 t (running s) @ [t]\<rparr>"
  by (simp add: restart_def Let_def remove_frame remove_lists)

lemma restart_frame:
  "printed (restart t s) = printed s \<and> sleeps (restart t s) = sleeps s
   \<and> resumed (restart t s) = resumed s \<and> flags (restart t s) = flags s
   \<and> next_id (restart t s) = next_id s"
  by (cases "tasks s t") (simp_all add: restart_Some remove_frame, simp add: restart_def)

lemma abort_frame:
  "sleeps (abort_on_error t e s) = sleeps s \<and> resumed (abort_on_error t e s) = resumed s"
  by (simp add: abort_on_error_def handle_exception_def restart_frame
      split: option.splits task_cls.splits)

lemma resume_task_frame:
  "sleeps (snd (resume_task t s)) = sleeps s \<and> resumed (snd (resume_task t s)) = resumed s @ [t]"
proof -
  obtain out s1 where g: "gen_next t s = (out, s1)" by (cases "gen_next t s")
  have f: "sleeps s1 = sleeps s" "resumed s1 = resumed s @ [t]"
    using gen_next_frame [of t s] g by simp_all
  show ?thesis
  proof (cases out)
    case (Yield m)
    then show ?thesis using f g by (simp add: resume_task_def list_remove_def)
  next
    case StopIteration
    then show ?thesis using f g by (simp add: resume_task_def remove_frame)
  next
    case (Raise e)
    then show ?thesis using f g
      by (cases e) (simp_all add: resume_task_def remove_frame abort_frame)
  qed
qed

lemma for_running_append:
  "for_running (xs @ ys) s =
     (case for_running xs s of (Some e, s1) \<Rightarrow> (Some e, s1) | (None, s1) \<Rightarrow> for_running ys s1)"
  by (induction xs arbitrary: s) (simp_all split: prod.splits option.splits)

lemma for_running_sleeps: "sleeps (snd (for_running xs s)) = sleeps s"
proof (induction xs arbitrary: s)
  case Nil
  show ?case by simp
next
  case (Cons t ts)
  obtain r s1 where rt: "resume_task t s = (r, s1)" by (cases "resume_task t s")
  have "sleeps s1 = sleeps s" using resume_task_frame [of t s] rt by simp
  then show ?case using Cons.IH [of s1] rt by (cases r) simp_all
qed

lemma for_running_Cons:
  "resume_task t s = (r, s1) \<Longrightarrow>
   for_running (t # ts) s = (case r of Some e \<Rightarrow> (Some e, s1) | None \<Rightarrow> for_running ts s1)"
  by (cases r) simp_all

lemma for_running_resumed_ok:
  "fst (for_running xs s) = None \<Longrightarrow> resumed (snd (for_running xs s)) = resumed s @ xs"
proof (induction xs arbitrary: s)
  case Nil
  show ?case by simp
next
  case (Cons t ts)
  obtain r s1 where rt: "resume_task t s = (r, s1)" by (cases "resume_task t s")
  have r1: "resumed s1 = resumed s @ [t]" using resume_task_frame [of t s] rt by simp
  have fr: "for_running (t # ts) s = (case r of Some e \<Rightarrow> (Some e, s1) | None \<Rightarrow> for_running ts s1)"
    by (rule for_running_Cons [OF rt])
  show ?case
  proof (cases r)
    case None
    then have eq: "for_running (t # ts) s = for_running ts s1" using fr by simp
    then have "fst (for_running ts s1) = None" using Cons.prems by simp
    then have "resumed (snd (for_running ts s1)) = resumed s1 @ ts" by (rule Cons.IH)
    then show ?thesis unfolding eq r1 by simp
  next
    case (Some e)
    then have "for_running (t # ts) s = (Some e, s1)" using fr by simp
    then show ?thesis using Cons.prems by simp
  qed
qed

lemma for_running_resumed_prefix:
  "\<exists>n \<le> length xs. resumed (snd (for_running xs s)) = resumed s @ take n xs"
proof (induction xs arbitrary: s)
  case Nil
  show ?case by simp
next
  case (Cons t ts)
  obtain r s1 where rt: "resume_task t s = (r, s1)" by (cases "resume_task t s")
  have r1: "resumed s1 = resumed s @ [t]" using resume_task_frame [of t s] rt by simp
  have fr: "for_running (t # ts) s = (case r of Some e \<Rightarrow> (Some e, s1) | None \<Rightarrow> for_running ts s1)"
    by (rule for_running_Cons [OF rt])
  show ?case
  proof (cases r)
    case None
    then have eq: "for_running (t # ts) s = for_running ts s1" using fr by simp
    from Cons.IH [of s1] obtain n where n: "n \<le> length ts"
      and rn: "resumed (snd (for_running ts s1)) = resumed s1 @ take n ts" by blast
    have "resumed (snd (for_running (t # ts) s)) = resumed s @ take (Suc n) (t # ts)"
      unfolding eq rn r1 by simp
    moreover have "Suc n \<le> length (t # ts)" using n by simp
    ultimately show ?thesis by blast
  next
    case (Some e)
    then have eq: "for_running (t # ts) s = (Some e, s1)" using fr by simp
    have "resumed (snd (for_running (t # ts) s)) = resumed s @ take (Suc 0) (t # ts)"
      unfolding eq using r1 by simp
    moreover have "Suc 0 \<le> length (t # ts)" by simp
    ultimately show ?thesis by blast
  qed
qed

subsection \<open>Evaluation of the examples\<close>

lemmas eval_defs = run_def wakeup_def Scheduler_init_def gen_next_def resume_task_def
  resume_or_sleep_def loop_pass_def flag_merge_def list_remove_def sleep_def remove_def stop_def
  restart_def abort_on_error_def handle_exception_def wake_task_def set_flag_def clear_def
  new_flag_def Let_def

subsection \<open>The flag allocator has no capacity limit\<close>

text \<open>
  C3, as stated, fails: after 32 calls, and after 64 calls, the next call of \<open>new_flag\<close>
  returns a value and advances the counter.
\<close>

theorem C3_counterexample:
  "new_flag (snd (new_flags 32 Scheduler_init)) =
     (4294967296, (snd (new_flags 32 Scheduler_init))\<lparr>flag_counter := 33\<rparr>)
   \<and> new_flag (snd (new_flags 64 Scheduler_init)) =
     (18446744073709551616, (snd (new_flags 64 Scheduler_init))\<lparr>flag_counter := 65\<rparr>)"
  by (simp add: new_flag_def new_flags_counter Scheduler_init_def push_bit_of_1)

text \<open>
  C3, amended. \<open>new_flag\<close> cannot fail and has no capacity limit: after any number \<open>n\<close>
  of calls on a fresh scheduler the next call returns \<open>2 ^ n\<close>, a value no earlier call
  returned, and changes the state only by advancing the counter to \<open>n + 1\<close>.
\<close>

theorem C3_new_flag_unbounded:
  "new_flag (snd (new_flags n Scheduler_init)) =
     (2 ^ n, (snd (new_flags n Scheduler_init))\<lparr>flag_counter := Suc n\<rparr>)
   \<and> 2 ^ n \<notin> set (fst (new_flags n Scheduler_init))"
  by (auto simp: new_flag_def new_flags_counter new_flags_values Scheduler_init_def push_bit_of_1)

subsection \<open>The flag block leaves the wait masks alone\<close>

text \<open>
  C4, as stated, fails: task 0 waits on mask 1 with flag 1 pending; the flag block moves it to
  \<open>running\<close> and its mask is still 1.
\<close>

theorem C4_counterexample:
  "0 \<in> set (waiting ex_waiting3) \<and> wakes ex_waiting3 0
   \<and> 0 \<in> set (running (snd (flag_merge ex_waiting3)))
   \<and> map_option mask_t (tasks (snd (flag_merge ex_waiting3)) 0) = Some 1"
proof -
  have w: "wakes ex_waiting3 0"
    by (simp add: wakes_def ex_waiting3_def mk_task_def)
  have l: "running ex_waiting3 = [3]" "waiting ex_waiting3 = [0, 1, 2]" "flags ex_waiting3 = 1"
    "map_option mask_t (tasks ex_waiting3 0) = Some 1"
    by (simp_all add: ex_waiting3_def mk_task_def)
  show ?thesis by (simp add: flag_merge_eq w l)
qed

text \<open>
  C4, amended. The flag block changes no task object, so every wait mask is what it was; a
  waiting task whose mask intersects the pending flags is moved to \<open>running\<close> and keeps that
  (non-zero) mask.
\<close>

theorem C4_masks_kept:
  "tasks (snd (flag_merge s)) = tasks s
   \<and> (t \<in> set (waiting s) \<and> wakes s t \<longrightarrow>
        t \<in> set (running (snd (flag_merge s)))
        \<and> (\<exists>tk. tasks (snd (flag_merge s)) t = Some tk \<and> flags s AND mask_t tk \<noteq> 0 \<and> mask_t tk \<noteq> 0))"
  by (auto simp: flag_merge_eq wakes_def split: option.splits)

theorem C4_masks_kept_witness:
  "2 \<in> set (waiting ex_waiting3) \<and> wakes ex_waiting3 2
   \<and> 2 \<in> set (running (snd (flag_merge ex_waiting3)))
   \<and> (\<exists>tk. tasks (snd (flag_merge ex_waiting3)) 2 = Some tk \<and> mask_t tk \<noteq> 0)"
proof -
  have w: "wakes ex_waiting3 2"
    by (simp add: wakes_def ex_waiting3_def mk_task_def)
  have l: "waiting ex_waiting3 = [0, 1, 2]"
    by (simp add: ex_waiting3_def)
  show ?thesis using C4_masks_kept [of ex_waiting3 2] by (auto simp: w l)
qed

subsection \<open>The membership invariant is preserved\<close>

lemma wf_remove: "wf s \<Longrightarrow> wf (remove t s)"
  by (auto simp: wf_def remove_frame remove_lists list_all_iff dest: notin_set_remove1)

lemma wf_restart: "wf s \<Longrightarrow> wf (restart t s)"
proof (cases "tasks s t")
  case None
  assume "wf s"
  with None show ?thesis by (simp add: restart_def)
next
  case (Some tk)
  assume w: "wf s"
  have lt: "t < next_id s" using w Some by (auto simp: wf_def)
  have d: "distinct (remove1 t (running s) @ [t] @ remove1 t (waiting s))"
    using w by (auto simp: wf_def dest: notin_set_remove1)
  show ?thesis
    using w lt d Some
    by (auto simp: wf_def restart_Some remove_frame remove_lists list_all_iff
        dest: notin_set_remove1)
qed

lemma wf_run: "wf s \<Longrightarrow> wf (snd (run g c s))"
  by (auto simp: wf_def run_def wakeup_def Let_def list_all_iff intro: less_SucI)

lemma wf_exec_action: "wf s \<Longrightarrow> wf (exec_action a s)"
proof (cases a)
  case (Stop u)
  assume "wf s" then show ?thesis using Stop by (simp add: stop_def wf_remove)
next
  case (Restart u)
  assume "wf s" then show ?thesis using Restart by (simp add: wf_restart)
next
  case (SetFlag f)
  assume "wf s" then show ?thesis using SetFlag by (simp add: wf_def set_flag_def wakeup_def)
next
  case NewFlag
  assume "wf s" then show ?thesis using NewFlag by (simp add: wf_def new_flag_def)
next
  case Clear
  assume "wf s" then show ?thesis using Clear by (simp add: wf_def clear_def)
next
  case (Run g c)
  assume "wf s" then show ?thesis using Run by (simp add: wf_run)
qed

lemma wf_exec_actions: "wf s \<Longrightarrow> wf (exec_actions as s)"
  by (induction as arbitrary: s) (simp_all add: wf_exec_action)

lemma wf_gen_next: "wf s \<Longrightarrow> wf (snd (gen_next t s))"
proof (cases "tasks s t")
  case None
  assume "wf s"
  then show ?thesis using None by (simp add: gen_next_def wf_def)
next
  case (Some tk)
  assume w: "wf s"
  show ?thesis
  proof (cases "iterator tk")
    case Finished
    with Some w show ?thesis by (simp add: gen_next_def wf_def)
  next
    case (Live k)
    obtain acts out where g: "generator tk k = (acts, out)" by (cases "generator tk k")
    have "wf (s\<lparr>tasks := (tasks s)(t \<mapsto> tk\<lparr>iterator := it\<rparr>), resumed := resumed s @ [t]\<rparr>)" for it
      using w Some by (auto simp: wf_def)
    then show ?thesis using Some Live g
      by (simp add: gen_next_def wf_exec_actions)
  qed
qed

lemma wf_abort: "wf s \<Longrightarrow> wf (abort_on_error t e s)"
proof -
  assume w: "wf s"
  have h: "wf (handle_exception t e s)" using w by (simp add: wf_def handle_exception_def)
  show ?thesis
    using w h by (simp add: abort_on_error_def wf_restart split: option.splits task_cls.splits)
qed

lemma wf_resume_task: "wf s \<Longrightarrow> wf (snd (resume_task t s))"
proof -
  assume w: "wf s"
  obtain out s1 where g: "gen_next t s = (out, s1)" by (cases "gen_next t s")
  have w1: "wf s1" using wf_gen_next [OF w, of t] g by simp
  show ?thesis
  proof (cases out)
    case (Yield m)
    show ?thesis
    proof (cases "m \<noteq> 0 \<and> t \<in> set (running s1)")
      case True
      have "wf (s1\<lparr>running := remove1 t (running s1), waiting := waiting s1 @ [t],
                   tasks := (tasks s1)(t := map_option (\<lambda>tk. tk\<lparr>mask_t := m\<rparr>) (tasks s1 t))\<rparr>)"
        using w1 True by (auto simp: wf_def list_all_iff dom_def dest: notin_set_remove1)
      then show ?thesis using g Yield True by (simp add: resume_task_def list_remove_def)
    next
      case False
      then show ?thesis using g Yield w1 by (auto simp: resume_task_def list_remove_def)
    qed
  next
    case StopIteration
    then show ?thesis using g w1 by (simp add: resume_task_def wf_remove)
  next
    case (Raise e)
    then show ?thesis using g w1
      by (cases e) (simp_all add: resume_task_def wf_remove wf_abort)
  qed
qed

lemma wf_for_running: "wf s \<Longrightarrow> wf (snd (for_running xs s))"
proof (induction xs arbitrary: s)
  case Nil
  then show ?case by simp
next
  case (Cons t ts)
  obtain r s1 where rt: "resume_task t s = (r, s1)" by (cases "resume_task t s")
  have w1: "wf s1" using wf_resume_task [OF Cons.prems, of t] rt by simp
  show ?case using Cons.IH [OF w1] w1 rt by (cases r) simp_all
qed

lemma wf_flag_merge: "wf s \<Longrightarrow> wf (snd (flag_merge s))"
  by (auto simp: flag_merge_eq wf_def list_all_iff)

lemma wf_loop_pass: "wf s \<Longrightarrow> wf (snd (loop_pass s))"
proof -
  assume w: "wf s"
  have fm: "flag_merge s = (None, snd (flag_merge s))" by (simp add: flag_merge_eq)
  have w1: "wf (snd (flag_merge s))" by (rule wf_flag_merge [OF w])
  have "wf (sleep (snd (flag_merge s)))" using w1 by (simp add: wf_def sleep_def)
  then have "wf (snd (resume_or_sleep (snd (flag_merge s))))"
    using w1 by (simp add: resume_or_sleep_def wf_for_running)
  then show ?thesis by (subst loop_pass_def, subst fm) simp
qed

lemma wf_init: "wf Scheduler_init"
  by (simp add: wf_def Scheduler_init_def)

lemma wf_loop_n: "wf s \<Longrightarrow> wf (snd (loop_n n s))"
proof (induction n arbitrary: s)
  case 0
  then show ?case by simp
next
  case (Suc n)
  obtain r s1 where lp: "loop_pass s = (r, s1)" by (cases "loop_pass s")
  have w1: "wf s1" using wf_loop_pass [OF Suc.prems] lp by simp
  show ?case using Suc.IH [OF w1] w1 lp by (cases r) simp_all
qed

subsection \<open>When the loop sleeps\<close>

lemma flag_merge_ok: "flag_merge s = (None, snd (flag_merge s))"
  by (simp add: flag_merge_eq)

lemma loop_pass_eq: "loop_pass s = resume_or_sleep (snd (flag_merge s))"
  by (subst loop_pass_def, subst flag_merge_ok) simp

text \<open>
  C9, as stated, fails: the only task yields the mask 1 at its first step. The pass ends with
  an empty \<open>running\<close> list, and \<open>sleep\<close> has not been called.
\<close>

theorem C9_counterexample:
  "loop_pass ex_yield1 =
     (None, ex_yield1\<lparr>running := [], waiting := [0],
              tasks := [0 \<mapsto> \<lparr>generator = gen_wait1, iterator = Live 1, mask_t = 1, cls = TaskCls\<rparr>],
              resumed := [0]\<rparr>)
   \<and> running (snd (loop_pass ex_yield1)) = []
   \<and> sleeps (snd (loop_pass ex_yield1)) = sleeps ex_yield1"
  by (simp add: ex_yield1_def gen_wait1_def eval_defs)

text \<open>
  C9, amended. A pass calls \<open>sleep\<close> exactly when \<open>running\<close> is empty right after the flag
  block, and then it resumes nothing; otherwise it runs the \<open>for\<close> loop over \<open>running\<close> and
  does not sleep, whether or not that loop empties the list.
\<close>

theorem C9_sleep_iff:
  "sleeps (snd (loop_pass s)) =
     (if running (snd (flag_merge s)) = [] then sleeps s + 1 else sleeps s)
   \<and> (running (snd (flag_merge s)) = [] \<longrightarrow>
        loop_pass s = (None, sleep (snd (flag_merge s))))
   \<and> (running (snd (flag_merge s)) \<noteq> [] \<longrightarrow>
        loop_pass s = for_running (running (snd (flag_merge s))) (snd (flag_merge s)))"
proof -
  have "sleeps (snd (flag_merge s)) = sleeps s" by (simp add: flag_merge_eq)
  then show ?thesis
    by (simp add: loop_pass_eq resume_or_sleep_def for_running_sleeps sleep_def)
qed

theorem C9_sleep_iff_witness:
  "running (snd (flag_merge ex_yield1)) \<noteq> []
   \<and> sleeps (snd (loop_pass ex_yield1)) = sleeps ex_yield1
   \<and> running (snd (flag_merge (snd (loop_pass ex_yield1)))) = []
   \<and> sleeps (snd (loop_pass (snd (loop_pass ex_yield1)))) = sleeps ex_yield1 + 1"
proof -
  have a: "running (snd (flag_merge ex_yield1)) = [0]"
    by (simp add: ex_yield1_def gen_wait1_def eval_defs)
  have p: "loop_pass ex_yield1 =
     (None, ex_yield1\<lparr>running := [], waiting := [0],
              tasks := [0 \<mapsto> \<lparr>generator = gen_wait1, iterator = Live 1, mask_t = 1, cls = TaskCls\<rparr>],
              resumed := [0]\<rparr>)"
    by (simp add: ex_yield1_def gen_wait1_def eval_defs)
  have b: "running (snd (flag_merge (snd (loop_pass ex_yield1)))) = []"
    unfolding p by (simp add: ex_yield1_def eval_defs)
  have c1: "sleeps (snd (loop_pass ex_yield1)) = sleeps ex_yield1"
    using C9_sleep_iff [of ex_yield1, THEN conjunct1] a by simp
  have c2: "sleeps (snd (loop_pass (snd (loop_pass ex_yield1)))) = sleeps (snd (loop_pass ex_yield1)) + 1"
    using C9_sleep_iff [of "snd (loop_pass ex_yield1)", THEN conjunct1] b by simp
  show ?thesis using a b c1 c2 by simp
qed

subsection \<open>Stopping a task that is still to yield in this pass\<close>

text \<open>
  C8. The code breaks the claim. A task that stops itself and then yields a non-zero mask, and
  likewise a task stopped by an earlier task of the same pass, makes
  \<open>self.running.remove(task)\<close> raise \<open>ValueError\<close>, and that exception leaves \<open>loop\<close>.
\<close>

theorem C8_self_stop_raises:
  "map_option fst (loop ex_self_stop) = Some ValueError
   \<and> map_option fst (loop ex_stop_other) = Some ValueError"
proof -
  have "fst (loop_pass ex_self_stop) = Some ValueError"
    by (simp add: ex_self_stop_def gen_self_stop_def eval_defs)
  moreover have "fst (loop_pass ex_stop_other) = Some ValueError"
    by (simp add: ex_stop_other_def gen_stop_other_def gen_wait1_def eval_defs)
  ultimately show ?thesis
    by (auto simp: loop.simps [of ex_self_stop] loop.simps [of ex_stop_other] split: prod.splits option.splits)
qed

subsection \<open>The hard exit\<close>

lemma loop_n_None: "loop_n n s = (None, s') \<Longrightarrow> loop s = loop s'"
proof (induction n arbitrary: s)
  case 0
  then show ?case by simp
next
  case (Suc n)
  obtain r s1 where lp: "loop_pass s = (r, s1)" by (cases "loop_pass s")
  from Suc.prems lp have r: "r = None" by (cases r) simp_all
  with Suc.prems lp have "loop_n n s1 = (None, s')" by simp
  then have "loop s1 = loop s'" by (rule Suc.IH)
  moreover have "loop s = loop s1" using lp r by (subst loop.simps) simp
  ultimately show ?case by simp
qed

lemma loop_n_Suc_end: "loop_n n s = (None, s') \<Longrightarrow> loop_n (Suc n) s = loop_pass s'"
proof (induction n arbitrary: s)
  case 0
  then show ?case by (simp split: prod.splits option.splits)
next
  case (Suc n)
  obtain r s1 where lp: "loop_pass s = (r, s1)" by (cases "loop_pass s")
  from Suc.prems lp have r: "r = None" by (cases r) simp_all
  with Suc.prems lp have "loop_n n s1 = (None, s')" by simp
  then have "loop_n (Suc n) s1 = loop_pass s'" by (rule Suc.IH)
  moreover have "loop_n (Suc (Suc n)) s = loop_n (Suc n) s1" using lp r by simp
  ultimately show ?case by simp
qed

lemma loop_raises: "loop_pass s = (Some e, s1) \<Longrightarrow> loop s = Some (e, s1)"
  by (subst loop.simps) simp

lemma for_running_split:
  "for_running pre s = (None, s0) \<Longrightarrow>
   for_running (pre @ t # post) s =
     (case resume_task t s0 of (Some e, s1) \<Rightarrow> (Some e, s1) | (None, s1) \<Rightarrow> for_running post s1)"
  by (simp add: for_running_append)

lemma resume_task_exit:
  "gen_next t s = (Raise ExitScheduler, s1) \<Longrightarrow> resume_task t s = (Some ExitScheduler, s1)"
  by (simp add: resume_task_def)

lemma pass_exit:
  assumes "running (snd (flag_merge sa)) = pre @ t # post"
    and "for_running pre (snd (flag_merge sa)) = (None, s0)"
    and "gen_next t s0 = (Raise ExitScheduler, s1)"
  shows "loop_pass sa = (Some ExitScheduler, s1)"
proof -
  have "for_running (pre @ t # post) (snd (flag_merge sa)) = (Some ExitScheduler, s1)"
    using for_running_split [OF assms(2), of t post] resume_task_exit [OF assms(3)] by simp
  then show ?thesis using assms(1) by (simp add: loop_pass_eq resume_or_sleep_def)
qed

lemma ex_exit_merge: "snd (flag_merge ex_exit) = ex_exit"
  by (simp add: flag_merge_eq ex_exit_def eval_defs)

lemma ex_exit_running: "running ex_exit = [0] @ 1 # [2]"
  by (simp add: ex_exit_def eval_defs)

lemma ex_exit_first: "fst (for_running [0] ex_exit) = None"
  by (simp add: ex_exit_def gen_fail_def eval_defs)

lemma ex_exit_second:
  "fst (gen_next 1 (snd (for_running [0] ex_exit))) = Raise ExitScheduler"
  by (simp add: ex_exit_def gen_fail_def gen_exit_def eval_defs)

text \<open>
  C5. Let any number of passes have completed, and let, in the next pass, the tasks before \<open>t\<close>
  in the snapshot of \<open>running\<close> be resumed without an exception leaving the loop. If the step
  of \<open>t\<close> then raises \<open>ExitScheduler\<close>, the pass and the whole of \<open>loop\<close> end with
  \<open>ExitScheduler\<close>, in the state the step left, and nothing is printed for it: the failure hook
  is not called.
\<close>

theorem C5_hard_exit_propagates:
  assumes "loop_n n s = (None, sa)"
    and "running (snd (flag_merge sa)) = pre @ t # post"
    and "for_running pre (snd (flag_merge sa)) = (None, s0)"
    and "gen_next t s0 = (Raise ExitScheduler, s1)"
  shows "loop_pass sa = (Some ExitScheduler, s1)
     \<and> loop_n (Suc n) s = (Some ExitScheduler, s1)
     \<and> loop s = Some (ExitScheduler, s1)
     \<and> printed s1 = printed s0"
proof -
  have p: "loop_pass sa = (Some ExitScheduler, s1)"
    by (rule pass_exit [OF assms(2) assms(3) assms(4)])
  have "loop s = loop sa" by (rule loop_n_None [OF assms(1)])
  then have l: "loop s = Some (ExitScheduler, s1)" using loop_raises [OF p] by simp
  have n: "loop_n (Suc n) s = (Some ExitScheduler, s1)"
    using loop_n_Suc_end [OF assms(1)] p by simp
  have "printed s1 = printed s0" using gen_next_frame [of t s0] assms(4) by simp
  with p l n show ?thesis by simp
qed

theorem C5_hard_exit_propagates_witness:
  "loop ex_exit = Some (ExitScheduler, snd (gen_next 1 (snd (for_running [0] ex_exit))))
   \<and> printed (snd (gen_next 1 (snd (for_running [0] ex_exit)))) = [(0, OtherError 7)]
   \<and> resumed (snd (gen_next 1 (snd (for_running [0] ex_exit)))) = [0, 1]"
proof -
  have h1: "loop_n 0 ex_exit = (None, ex_exit)" by simp
  have h2: "running (snd (flag_merge ex_exit)) = [0] @ 1 # [2]"
    by (simp only: ex_exit_merge ex_exit_running)
  have h3: "for_running [0] (snd (flag_merge ex_exit)) = (None, snd (for_running [0] ex_exit))"
    using ex_exit_first by (simp add: ex_exit_merge prod_eq_iff)
  have h4: "gen_next 1 (snd (for_running [0] ex_exit))
            = (Raise ExitScheduler, snd (gen_next 1 (snd (for_running [0] ex_exit))))"
    using ex_exit_second by (simp add: prod_eq_iff)
  have p: "printed (snd (for_running [0] ex_exit)) = [(0, OtherError 7)]"
    by (simp add: ex_exit_def gen_fail_def eval_defs)
  have r: "resumed (snd (gen_next 1 (snd (for_running [0] ex_exit)))) = [0, 1]"
    by (simp add: ex_exit_def gen_fail_def gen_exit_def eval_defs)
  show ?thesis using C5_hard_exit_propagates [OF h1 h2 h3 h4] p r by simp
qed





subsection \<open>Each task of the snapshot is resumed once\<close>

lemma count_list_distinct:
  "distinct xs \<Longrightarrow> count_list xs t = (if t \<in> set xs then 1 else 0)"
  by (induction xs) auto

text \<open>
  C6. In a pass the calls of \<open>__next__\<close> are made on a prefix of the snapshot of \<open>running\<close>
  taken after the flag block, in its order; when no exception leaves the pass they are made on
  the whole snapshot, so that under the membership invariant every task of the snapshot is
  resumed exactly once and no other task at all, whatever the steps add to \<open>running\<close>
  (a restarted task included). What is in \<open>running\<close> when the pass ends is in the snapshot
  of the next pass.
\<close>

theorem C6_each_runnable_resumed_once:
  assumes "loop_pass s = (r, s')"
  shows "(\<exists>n \<le> length (running (snd (flag_merge s))).
            resumed s' = resumed s @ take n (running (snd (flag_merge s))))
     \<and> (r = None \<longrightarrow> resumed s' = resumed s @ running (snd (flag_merge s)))
     \<and> (r = None \<and> wf s \<longrightarrow>
          (\<forall>t. count_list (resumed s') t
                = count_list (resumed s) t + (if t \<in> set (running (snd (flag_merge s))) then 1 else 0)))
     \<and> set (running s') \<subseteq> set (running (snd (flag_merge s')))"
proof -
  let ?m = "snd (flag_merge s)"
  let ?snap = "running ?m"
  have rm: "resumed ?m = resumed s" by (simp add: flag_merge_eq)
  have nx: "set (running s') \<subseteq> set (running (snd (flag_merge s')))" by (simp add: flag_merge_eq)
  show ?thesis
  proof (cases "?snap = []")
    case True
    then have "loop_pass s = (None, sleep ?m)" by (simp add: loop_pass_eq resume_or_sleep_def)
    then have "resumed s' = resumed s" using assms rm by (auto simp: sleep_def)
    then show ?thesis using True nx by simp
  next
    case False
    then have lp: "for_running ?snap ?m = (r, s')"
      using assms by (simp add: loop_pass_eq resume_or_sleep_def)
    have a: "\<exists>n \<le> length ?snap. resumed s' = resumed s @ take n ?snap"
      using for_running_resumed_prefix [of ?snap ?m] lp rm by simp
    have b: "r = None \<longrightarrow> resumed s' = resumed s @ ?snap"
      using for_running_resumed_ok [of ?snap ?m] lp rm by simp
    have c: "r = None \<and> wf s \<longrightarrow>
          (\<forall>t. count_list (resumed s') t = count_list (resumed s) t + (if t \<in> set ?snap then 1 else 0))"
    proof (intro impI allI)
      fix t
      assume h: "r = None \<and> wf s"
      then have "wf ?m" by (simp add: wf_flag_merge)
      then have d: "distinct ?snap" by (simp add: wf_def)
      from h b have "resumed s' = resumed s @ ?snap" by simp
      then show "count_list (resumed s') t = count_list (resumed s) t + (if t \<in> set ?snap then 1 else 0)"
        using count_list_distinct [OF d, of t] by simp
    qed
    show ?thesis using a b c nx by blast
  qed
qed

lemma wf_ex_restart: "wf ex_restart"
  unfolding ex_restart_def by (intro wf_run wf_init)

theorem C6_each_runnable_resumed_once_witness:
  "wf ex_restart
   \<and> fst (loop_pass ex_restart) = None
   \<and> running (snd (flag_merge ex_restart)) = [0, 1]
   \<and> resumed ex_restart = []
   \<and> resumed (snd (loop_pass ex_restart)) = [0, 1]
   \<and> running (snd (loop_pass ex_restart)) = [1, 0]
   \<and> count_list (resumed (snd (loop_pass ex_restart))) 0 = 1"
proof -
  have f: "fst (loop_pass ex_restart) = None"
    by (simp add: ex_restart_def gen_fail_def gen_yield0_def eval_defs)
  have h: "loop_pass ex_restart = (None, snd (loop_pass ex_restart))"
    using f by (simp add: prod_eq_iff)
  have m: "running (snd (flag_merge ex_restart)) = [0, 1]"
    by (simp add: ex_restart_def eval_defs)
  have r0: "resumed ex_restart = []"
    by (simp add: ex_restart_def eval_defs)
  have r1: "running (snd (loop_pass ex_restart)) = [1, 0]"
    by (simp add: ex_restart_def gen_fail_def gen_yield0_def eval_defs)
  have a: "resumed (snd (loop_pass ex_restart)) = resumed ex_restart @ running (snd (flag_merge ex_restart))"
    using C6_each_runnable_resumed_once [OF h] by simp
  have b: "count_list (resumed (snd (loop_pass ex_restart))) 0
           = count_list (resumed ex_restart) 0
             + (if 0 \<in> set (running (snd (flag_merge ex_restart))) then 1 else 0)"
    using C6_each_runnable_resumed_once [OF h] wf_ex_restart by blast
  show ?thesis using f m r0 r1 a b wf_ex_restart by simp
qed

subsection \<open>A failing step\<close>

text \<open>What a task object keeps for its whole life: class, generator function; and the calls of a step do not assign masks.\<close>

lemma exec_action_static:
  assumes "wf s" and "tasks s t = Some tk"
  shows "\<exists>tk'. tasks (exec_action a s) t = Some tk' \<and> cls tk' = cls tk
           \<and> generator tk' = generator tk \<and> mask_t tk' = mask_t tk"
proof (cases a)
  case (Stop u)
  then show ?thesis using assms(2) by (simp add: stop_def remove_frame)
next
  case (Restart u)
  show ?thesis
  proof (cases "tasks s u")
    case None
    then show ?thesis using assms(2) Restart by (simp add: restart_def)
  next
    case (Some tu)
    then show ?thesis using assms(2) Restart by (cases "t = u") (simp_all add: restart_Some)
  qed
next
  case (SetFlag f)
  then show ?thesis using assms(2) by (simp add: set_flag_def wakeup_def)
next
  case NewFlag
  then show ?thesis using assms(2) by (simp add: new_flag_def)
next
  case Clear
  then show ?thesis using assms(2) by (simp add: clear_def)
next
  case (Run g c)
  have "t < next_id s" using assms by (auto simp: wf_def)
  then show ?thesis using assms(2) Run by (simp add: run_def wakeup_def Let_def)
qed

lemma exec_actions_static:
  assumes "wf s" and "tasks s t = Some tk"
  shows "\<exists>tk'. tasks (exec_actions as s) t = Some tk' \<and> cls tk' = cls tk
           \<and> generator tk' = generator tk \<and> mask_t tk' = mask_t tk"
  using assms
proof (induction as arbitrary: s tk)
  case Nil
  then show ?case by simp
next
  case (Cons a as)
  from exec_action_static [OF Cons.prems, of a] obtain tk1 where
    t1: "tasks (exec_action a s) t = Some tk1" "cls tk1 = cls tk"
        "generator tk1 = generator tk" "mask_t tk1 = mask_t tk" by blast
  have w1: "wf (exec_action a s)" by (rule wf_exec_action [OF Cons.prems(1)])
  from Cons.IH [OF w1 t1(1)] t1 show ?case by simp
qed

lemma gen_next_static:
  assumes "wf s" and "tasks s u = Some tk"
  shows "\<exists>tk'. tasks (snd (gen_next t s)) u = Some tk' \<and> cls tk' = cls tk
           \<and> generator tk' = generator tk \<and> mask_t tk' = mask_t tk"
proof (cases "tasks s t")
  case None
  then show ?thesis using assms(2) by (simp add: gen_next_def)
next
  case (Some tt)
  show ?thesis
  proof (cases "iterator tt")
    case Finished
    with Some assms(2) show ?thesis by (simp add: gen_next_def)
  next
    case (Live k)
    obtain acts out where g: "generator tt k = (acts, out)" by (cases "generator tt k")
    let ?it = "case out of Yield m \<Rightarrow> Live (Suc k) | _ \<Rightarrow> Finished"
    let ?s1 = "s\<lparr>tasks := (tasks s)(t \<mapsto> tt\<lparr>iterator := ?it\<rparr>), resumed := resumed s @ [t]\<rparr>"
    have w1: "wf ?s1" using assms(1) Some by (auto simp: wf_def)
    obtain tk1 where t1: "tasks ?s1 u = Some tk1" "cls tk1 = cls tk"
        "generator tk1 = generator tk" "mask_t tk1 = mask_t tk"
      using assms(2) Some by (cases "u = t") simp_all
    have e: "snd (gen_next t s) = exec_actions acts ?s1"
      using Some Live g by (simp add: gen_next_def)
    from exec_actions_static [OF w1 t1(1), of acts] t1 show ?thesis unfolding e by simp
  qed
qed

lemma remove_absent:
  "distinct (running s @ waiting s) \<Longrightarrow>
   t \<notin> set (running (remove t s)) \<and> t \<notin> set (waiting (remove t s))"
  by (simp add: remove_lists)

lemma abort_Task:
  "tasks s t = Some tk \<Longrightarrow> cls tk = TaskCls \<Longrightarrow>
   abort_on_error t e s = s\<lparr>printed := printed s @ [(t, e)]\<rparr>"
  by (simp add: abort_on_error_def handle_exception_def)

lemma abort_Restarting:
  "tasks s t = Some tk \<Longrightarrow> cls tk = RestartingTaskCls \<Longrightarrow>
   abort_on_error t e s =
     s\<lparr>printed := printed s @ [(t, e)],
       waiting := remove1 t (waiting s),
       tasks := (tasks s)(t \<mapsto> tk\<lparr>iterator := Live 0\<rparr>),
       running := remove1 t (running s) @ [t]\<rparr>"
  by (simp add: abort_on_error_def handle_exception_def restart_Some remove_def list_remove_def
      remove1_idem Let_def)

text \<open>
  C2. If the step of \<open>t\<close> raises an exception \<open>e\<close> other than \<open>ExitScheduler\<close>, the loop first
  removes \<open>t\<close>, so that the state handed to \<open>_abort_on_error\<close> has \<open>t\<close> in neither list, and
  then calls the hook, which prints \<open>e\<close> once. A \<open>Task\<close> stays in neither list; a
  \<open>RestartingTask\<close> is appended to \<open>running\<close>, where it occurs exactly once, and is not in
  \<open>waiting\<close>. No exception leaves the loop body: the \<open>for\<close> loop goes on with the next task.
\<close>

theorem C2_failure_removed_before_hook:
  assumes "wf s" and "tasks s t = Some tk"
    and "gen_next t s = (Raise e, s1)" and "e \<noteq> ExitScheduler"
  shows "resume_task t s = (None, abort_on_error t e (remove t s1))
     \<and> t \<notin> set (running (remove t s1)) \<and> t \<notin> set (waiting (remove t s1))
     \<and> printed (abort_on_error t e (remove t s1)) = printed s1 @ [(t, e)]
     \<and> (cls tk = TaskCls \<longrightarrow>
          t \<notin> set (running (abort_on_error t e (remove t s1)))
          \<and> t \<notin> set (waiting (abort_on_error t e (remove t s1))))
     \<and> (cls tk = RestartingTaskCls \<longrightarrow>
          running (abort_on_error t e (remove t s1)) = remove1 t (running s1) @ [t]
          \<and> count_list (running (abort_on_error t e (remove t s1))) t = 1
          \<and> t \<notin> set (waiting (abort_on_error t e (remove t s1))))
     \<and> wf (abort_on_error t e (remove t s1))
     \<and> for_running (t # ts) s = for_running ts (abort_on_error t e (remove t s1))"
proof -
  let ?r = "remove t s1"
  let ?s2 = "abort_on_error t e ?r"
  have w1: "wf s1" using wf_gen_next [OF assms(1), of t] assms(3) by simp
  have d1: "distinct (running s1 @ waiting s1)" using w1 by (simp add: wf_def)
  have rt: "resume_task t s = (None, ?s2)"
    using assms(3,4) by (cases e) (simp_all add: resume_task_def)
  have ab: "t \<notin> set (running ?r) \<and> t \<notin> set (waiting ?r)"
    by (rule remove_absent [OF d1])
  obtain tk1 where t1: "tasks s1 t = Some tk1" "cls tk1 = cls tk"
    using gen_next_static [OF assms(1,2), of t] assms(3) by auto
  have tr: "tasks ?r t = Some tk1" using t1 by (simp add: remove_frame)
  have wr: "wf ?r" by (rule wf_remove [OF w1])
  have w2: "wf ?s2" by (rule wf_abort [OF wr])
  have dr: "distinct (running ?r)" using wr by (simp add: wf_def)
  have pr: "printed ?s2 = printed s1 @ [(t, e)]"
    using tr t1(2) by (cases "cls tk") (simp_all add: abort_Task abort_Restarting remove_frame)
  have c1: "cls tk = TaskCls \<longrightarrow> t \<notin> set (running ?s2) \<and> t \<notin> set (waiting ?s2)"
    using tr t1(2) ab by (simp add: abort_Task)
  have c2: "cls tk = RestartingTaskCls \<longrightarrow>
          running ?s2 = remove1 t (running s1) @ [t]
          \<and> count_list (running ?s2) t = 1 \<and> t \<notin> set (waiting ?s2)"
  proof
    assume c: "cls tk = RestartingTaskCls"
    have e2: "running ?s2 = remove1 t (running ?r) @ [t]" "waiting ?s2 = remove1 t (waiting ?r)"
      using tr t1(2) c by (simp_all add: abort_Restarting)
    have d2: "distinct (running ?s2)" using w2 by (simp add: wf_def)
    have cnt: "count_list (running ?s2) t = 1"
      using count_list_distinct [OF d2, of t] e2 by simp
    have ab': "t \<notin> set (remove1 t (running s1))" "t \<notin> set (remove1 t (waiting s1))"
      using ab by (simp_all add: remove_lists)
    have r1: "running ?s2 = remove1 t (running s1) @ [t]"
      using e2(1) ab'(1) by (simp add: remove_lists remove1_idem)
    have r3: "t \<notin> set (waiting ?s2)"
      using e2(2) ab'(2) by (simp add: remove_lists remove1_idem)
    show "running ?s2 = remove1 t (running s1) @ [t]
          \<and> count_list (running ?s2) t = 1 \<and> t \<notin> set (waiting ?s2)"
      using cnt r1 r3 by blast
  qed
  have fr: "for_running (t # ts) s = for_running ts ?s2" using rt by simp
  show ?thesis using rt ab pr c1 c2 w2 fr by blast
qed

theorem C2_failure_removed_before_hook_witness:
  "wf ex_restart
   \<and> fst (gen_next 0 ex_restart) = Raise (OtherError 7)
   \<and> fst (resume_task 0 ex_restart) = None
   \<and> running (remove 0 (snd (gen_next 0 ex_restart))) = [1]
   \<and> running (snd (resume_task 0 ex_restart)) = [1, 0]
   \<and> count_list (running (snd (resume_task 0 ex_restart))) 0 = 1
   \<and> printed (snd (resume_task 0 ex_restart)) = [(0, OtherError 7)]"
proof -
  let ?tk = "\<lparr>generator = gen_fail, iterator = Live 0, mask_t = 0, cls = RestartingTaskCls\<rparr>"
  let ?s1 = "snd (gen_next 0 ex_restart)"
  have h2: "tasks ex_restart 0 = Some ?tk"
    by (simp add: ex_restart_def eval_defs)
  have g: "fst (gen_next 0 ex_restart) = Raise (OtherError 7)"
    by (simp add: ex_restart_def gen_fail_def eval_defs)
  have h3: "gen_next 0 ex_restart = (Raise (OtherError 7), ?s1)"
    using g by (simp add: prod_eq_iff)
  have h4: "OtherError 7 \<noteq> ExitScheduler" by simp
  have r: "running ?s1 = [0, 1]" "printed ?s1 = []"
    by (simp_all add: ex_restart_def gen_fail_def eval_defs)
  have c: "cls ?tk = RestartingTaskCls" by simp
  note th = C2_failure_removed_before_hook [OF wf_ex_restart h2 h3 h4, of "[]"]
  have a: "resume_task 0 ex_restart = (None, abort_on_error 0 (OtherError 7) (remove 0 ?s1))"
    using th by blast
  have b: "running (abort_on_error 0 (OtherError 7) (remove 0 ?s1)) = remove1 0 (running ?s1) @ [0]"
    "count_list (running (abort_on_error 0 (OtherError 7) (remove 0 ?s1))) 0 = 1"
    "printed (abort_on_error 0 (OtherError 7) (remove 0 ?s1)) = printed ?s1 @ [(0, OtherError 7)]"
    using th c by blast+
  have d: "running (remove 0 ?s1) = [1]" using r by (simp add: remove_lists)
  show ?thesis using wf_ex_restart g a b d r by simp
qed

subsection \<open>A restarting task that always fails\<close>




























end
